theory Spec2Isabelle
  imports Main "HOL-Library.Word"
begin

section \<open>Configuration\<close>

text \<open>
  The sketch \<^verbatim>\<open>OPL2_Synthesizer.ino\<close> is embedded function by function. A \<^verbatim>\<open>byte\<close> is an
  8-bit word, so every narrowing assignment wraps as it does on the board. A C \<^verbatim>\<open>int\<close> is
  an \<^typ>\<open>int\<close>: the sketch only stores \<^verbatim>\<open>-1\<close>, loop counters and promoted bytes in its
  \<^verbatim>\<open>int\<close>s, and only adds two promoted bytes or a promoted byte and one of its constants,
  so no \<^verbatim>\<open>int\<close> of the sketch leaves the 16-bit range.
\<close>

type_synonym byte = "8 word"

definition LOOP_DELAY :: int where "LOOP_DELAY = 50"
definition NONE :: int where "NONE = - 1"
definition BASE_NOTE :: int where "BASE_NOTE = 36"
definition LOWEST_NOTE :: int where "LOWEST_NOTE = 0"
definition HIGHEST_NOTE :: int where "HIGHEST_NOTE = 96"
definition FIRST_KEY_PIN :: int where "FIRST_KEY_PIN = 2"
definition MOVE_UP_1_PIN :: int where "MOVE_UP_1_PIN = 6"
definition MOVE_DOWN_1_PIN :: int where "MOVE_DOWN_1_PIN = 5"
definition AMOUNT_OF_KEYS :: int where "AMOUNT_OF_KEYS = 3"
definition AMOUNT_OF_EXTRA_KEYS :: int where "AMOUNT_OF_EXTRA_KEYS = 2"
definition AMOUNT_OF_CHANNELS :: int where "AMOUNT_OF_CHANNELS = 8"
definition AMOUNT_OF_SETTINGS :: int where "AMOUNT_OF_SETTINGS = 5"

section \<open>Data\<close>

text \<open>The struct \<^verbatim>\<open>Channel\<close>; the field \<^verbatim>\<open>id\<close> is \<open>id_c\<close> here.\<close>

record Channel =
  id_c :: int
  pressedKey :: int
  playing :: bool

text \<open>
  What the board and the libraries are to the sketch: pin levels and modes, the operator
  argument of the OPL2 library, and the calls the sketch makes on the OPL2 object, on
  \<^verbatim>\<open>Serial\<close> and on the Arduino core, in the order it makes them.
\<close>

datatype level = LOW | HIGH

datatype pin_mode = INPUT | OUTPUT

datatype operator = MODULATOR | CARRIER

datatype call =
    Opl2_init
  | Serial_begin int
  | Serial_println string
  | PinMode int pin_mode
  | Delay int
  | SetTremolo byte operator bool
  | SetVibrato byte operator bool
  | SetMultiplier byte operator byte
  | SetAttack byte operator byte
  | SetDecay byte operator byte
  | SetSustain byte operator byte
  | SetRelease byte operator byte
  | PlayNote byte byte byte

text \<open>The globals of the sketch, and \<open>trace\<close>, the calls made so far.\<close>

record State =
  base :: byte
  channels :: "Channel list"
  tremolo :: bool
  vibrato :: bool
  settings :: "byte list"
  trace :: "call list"

text \<open>
  What the pins return during one pass of \<^verbatim>\<open>loop\<close>. \<^verbatim>\<open>manageKeys\<close> reads the pin of a key
  once in its \<^verbatim>\<open>if\<close> and a second time in its \<^verbatim>\<open>else if\<close>; the two readings are
  \<open>digitalRead\<close> and \<open>digitalReread\<close> and need not agree.
\<close>

record Inputs =
  analogRead :: "byte \<Rightarrow> int"
  digitalRead :: "int \<Rightarrow> level"
  digitalReread :: "int \<Rightarrow> level"

text \<open>The globals as the program starts: the initialisers, and zeroes for \<^verbatim>\<open>channels\<close>.\<close>

definition initial :: State where
  "initial =
     \<lparr>base = word_of_int BASE_NOTE,
      channels = replicate (nat AMOUNT_OF_CHANNELS) \<lparr>id_c = 0, pressedKey = 0, playing = False\<rparr>,
      tremolo = True,
      vibrato = True,
      settings = [0x08, 0x0A, 0x04, 0x04, 0x0F],
      trace = []\<rparr>"

definition emit :: "call \<Rightarrow> State \<Rightarrow> State" where
  "emit c st = st\<lparr>trace := trace st @ [c]\<rparr>"

text \<open>\<^verbatim>\<open>String(b)\<close> of a byte: its decimal digits.\<close>

definition digit :: "nat \<Rightarrow> char" where
  "digit n = ''0123456789'' ! n"

definition String_byte :: "byte \<Rightarrow> string" where
  "String_byte b =
     (let n = unat b in
        (if 100 \<le> n then [digit (n div 100)] else []) @
        (if 10 \<le> n then [digit (n div 10 mod 10)] else []) @
        [digit (n mod 10)])"

section \<open>getChannel\<close>

text \<open>
  The two scans of \<^verbatim>\<open>getChannel\<close>: \<open>Some\<close> is the \<^verbatim>\<open>return\<close> inside the loop, \<open>None\<close> is
  the loop running to its end.
\<close>

function getChannel_a :: "byte \<Rightarrow> int \<Rightarrow> State \<Rightarrow> Channel option" where
  "getChannel_a key a st =
     (if a < AMOUNT_OF_CHANNELS then
        (if pressedKey (channels st ! nat a) = uint key \<and> \<not> playing (channels st ! nat a)
         then Some (channels st ! nat a)
         else getChannel_a key (a + 1) st)
      else None)"
  by pat_completeness auto
termination
  by (relation "measure (\<lambda>(key, a, st). nat (AMOUNT_OF_CHANNELS - a))") auto

function getChannel_b :: "int \<Rightarrow> State \<Rightarrow> Channel option" where
  "getChannel_b b st =
     (if b < AMOUNT_OF_CHANNELS then
        (if pressedKey (channels st ! nat b) = NONE \<and> \<not> playing (channels st ! nat b)
         then Some (channels st ! nat b)
         else getChannel_b (b + 1) st)
      else None)"
  by pat_completeness auto
termination
  by (relation "measure (\<lambda>(b, st). nat (AMOUNT_OF_CHANNELS - b))") auto

declare getChannel_a.simps [simp del] getChannel_b.simps [simp del]

text \<open>The channel is returned by value; the globals come back as they went in.\<close>

definition getChannel :: "byte \<Rightarrow> State \<Rightarrow> Channel \<times> State" where
  "getChannel key st =
     (case getChannel_a key 0 st of
        Some c \<Rightarrow> (c, st)
      | None \<Rightarrow>
          (case getChannel_b 0 st of
             Some c \<Rightarrow> (c, st)
           | None \<Rightarrow> (channels st ! 0, st)))"

section \<open>altBase and playNoteFromBase\<close>

text \<open>
  \<^verbatim>\<open>base + alt\<close> is computed on \<^verbatim>\<open>int\<close>s; \<^verbatim>\<open>base += alt\<close> narrows the sum to a byte.
\<close>

definition altBase :: "int \<Rightarrow> State \<Rightarrow> State" where
  "altBase alt st =
     (if uint (base st) + alt \<ge> LOWEST_NOTE \<and>
         uint (base st) + alt < HIGHEST_NOTE - AMOUNT_OF_KEYS
      then st\<lparr>base := word_of_int (uint (base st) + alt)\<rparr>
      else st)"

text \<open>
  Each of the three locals is a byte, computed on \<^verbatim>\<open>int\<close>s and narrowed. Both operands of
  \<^verbatim>\<open>%\<close> and \<^verbatim>\<open>/\<close> are non-negative, where C and HOL divide alike.
\<close>

definition playNoteFromBase :: "byte \<Rightarrow> byte \<Rightarrow> State \<Rightarrow> State" where
  "playNoteFromBase channel offset st =
     (let note = (word_of_int (uint (base st) + uint offset) :: byte);
          noteInScale = (word_of_int (uint note mod 12) :: byte);
          octive = (word_of_int ((uint note - uint noteInScale) div 12) :: byte)
      in emit (PlayNote channel octive noteInScale) st)"

section \<open>manageSettings\<close>

text \<open>
  The first loop. \<^verbatim>\<open>byte analog = analogRead(i)\<close> narrows the \<^verbatim>\<open>int\<close> that \<^verbatim>\<open>analogRead\<close>
  returns.
\<close>

definition manageSettings_sample :: "Inputs \<Rightarrow> byte \<Rightarrow> State \<Rightarrow> State" where
  "manageSettings_sample inp i st =
     (let analog = (word_of_int (analogRead inp i) :: byte);
          val = analog div 64
      in if settings st ! unat i \<noteq> val \<and> analog \<noteq> 0
         then emit (Serial_println (String_byte val @ '' on '' @ String_byte i))
                (st\<lparr>settings := (settings st)[unat i := val]\<rparr>)
         else st)"

function manageSettings_read :: "Inputs \<Rightarrow> byte \<Rightarrow> State \<Rightarrow> State" where
  "manageSettings_read inp i st =
     (if uint i < AMOUNT_OF_SETTINGS
      then manageSettings_read inp (i + 1) (manageSettings_sample inp i st)
      else st)"
  by pat_completeness auto
termination
  by (relation "measure (\<lambda>(inp, i, st). nat (AMOUNT_OF_SETTINGS - uint i))")
     (auto simp: AMOUNT_OF_SETTINGS_def uint_plus_if')

text \<open>The second loop: seven calls on the OPL2 for each channel that is not playing.\<close>

definition manageSettings_set :: "byte \<Rightarrow> State \<Rightarrow> State" where
  "manageSettings_set i st =
     (if \<not> playing (channels st ! unat i) then
        emit (SetRelease i CARRIER (settings st ! 4))
          (emit (SetSustain i CARRIER (settings st ! 3))
            (emit (SetDecay i CARRIER (settings st ! 2))
              (emit (SetAttack i CARRIER (settings st ! 1))
                (emit (SetMultiplier i CARRIER (settings st ! 0))
                  (emit (SetVibrato i CARRIER (vibrato st))
                    (emit (SetTremolo i CARRIER (tremolo st)) st))))))
      else st)"

function manageSettings_apply :: "byte \<Rightarrow> State \<Rightarrow> State" where
  "manageSettings_apply i st =
     (if uint i < AMOUNT_OF_CHANNELS
      then manageSettings_apply (i + 1) (manageSettings_set i st)
      else st)"
  by pat_completeness auto
termination
  by (relation "measure (\<lambda>(i, st). nat (AMOUNT_OF_CHANNELS - uint i))")
     (auto simp: AMOUNT_OF_CHANNELS_def uint_plus_if')

declare manageSettings_read.simps [simp del] manageSettings_apply.simps [simp del]

definition manageSettings :: "Inputs \<Rightarrow> State \<Rightarrow> State" where
  "manageSettings inp st = manageSettings_apply 0 (manageSettings_read inp 0 st)"

section \<open>manageKeys\<close>

text \<open>
  \<^verbatim>\<open>channels[idx].pressedKey = v\<close>. The array has \<^verbatim>\<open>AMOUNT_OF_CHANNELS\<close> elements; an
  index outside it is undefined behaviour in C++, which is \<open>None\<close> here.
\<close>

definition set_pressedKey :: "int \<Rightarrow> int \<Rightarrow> State \<Rightarrow> State option" where
  "set_pressedKey idx v st =
     (if 0 \<le> idx \<and> idx < AMOUNT_OF_CHANNELS
      then Some (st\<lparr>channels := (channels st)[nat idx := (channels st ! nat idx)\<lparr>pressedKey := v\<rparr>]\<rparr>)
      else None)"

text \<open>The body of the loop over the keys.\<close>

definition manageKeys_key :: "Inputs \<Rightarrow> byte \<Rightarrow> State \<Rightarrow> State option" where
  "manageKeys_key inp key st =
     (case getChannel key st of (channel, st) \<Rightarrow>
        if digitalRead inp (uint key + FIRST_KEY_PIN) = HIGH \<and> pressedKey channel = NONE then
          (case set_pressedKey (id_c channel) (uint key)
                  (playNoteFromBase (word_of_int (id_c channel)) key st) of
             None \<Rightarrow> None
           | Some st \<Rightarrow>
               Some (emit (Serial_println ('' key '' @ String_byte key @ '' pressed!'')) st))
        else if digitalReread inp (uint key + FIRST_KEY_PIN) = LOW \<and>
                pressedKey channel = uint key then
          (case set_pressedKey (id_c channel) NONE st of
             None \<Rightarrow> None
           | Some st \<Rightarrow>
               Some (emit (Serial_println (''key '' @ String_byte key @ '' released!'')) st))
        else Some st)"

function manageKeys_loop :: "Inputs \<Rightarrow> byte \<Rightarrow> State \<Rightarrow> State option" where
  "manageKeys_loop inp key st =
     (if uint key < AMOUNT_OF_KEYS then
        (case manageKeys_key inp key st of
           None \<Rightarrow> None
         | Some st \<Rightarrow> manageKeys_loop inp (key + 1) st)
      else Some st)"
  by pat_completeness auto
termination
  by (relation "measure (\<lambda>(inp, key, st). nat (AMOUNT_OF_KEYS - uint key))")
     (auto simp: AMOUNT_OF_KEYS_def uint_plus_if')

declare manageKeys_loop.simps [simp del]

definition manageKeys :: "Inputs \<Rightarrow> State \<Rightarrow> State option" where
  "manageKeys inp st =
     (case manageKeys_loop inp 0 st of
        None \<Rightarrow> None
      | Some st \<Rightarrow>
          (let st = (if digitalRead inp MOVE_DOWN_1_PIN = HIGH then altBase (- 1) st else st);
               st = (if digitalRead inp MOVE_UP_1_PIN = HIGH then altBase 1 st else st)
           in Some st))"

section \<open>setup and loop\<close>

function setup_channels :: "byte \<Rightarrow> State \<Rightarrow> State" where
  "setup_channels i st =
     (if uint i < AMOUNT_OF_CHANNELS
      then setup_channels (i + 1)
             (st\<lparr>channels := (channels st)[unat i := \<lparr>id_c = uint i, pressedKey = NONE, playing = False\<rparr>]\<rparr>)
      else st)"
  by pat_completeness auto
termination
  by (relation "measure (\<lambda>(i, st). nat (AMOUNT_OF_CHANNELS - uint i))")
     (auto simp: AMOUNT_OF_CHANNELS_def uint_plus_if')

function setup_pins :: "byte \<Rightarrow> State \<Rightarrow> State" where
  "setup_pins i st =
     (if uint i < AMOUNT_OF_KEYS + AMOUNT_OF_EXTRA_KEYS
      then setup_pins (i + 1) (emit (PinMode (uint i + FIRST_KEY_PIN) OUTPUT) st)
      else st)"
  by pat_completeness auto
termination
  by (relation "measure (\<lambda>(i, st). nat (AMOUNT_OF_KEYS + AMOUNT_OF_EXTRA_KEYS - uint i))")
     (auto simp: AMOUNT_OF_KEYS_def AMOUNT_OF_EXTRA_KEYS_def uint_plus_if')

declare setup_channels.simps [simp del] setup_pins.simps [simp del]

definition setup_board :: "Inputs \<Rightarrow> State \<Rightarrow> State" where
  "setup_board inp st =
     setup_pins 0
       (setup_channels 0
         (manageSettings inp
           (emit (Serial_begin 9600)
             (emit Opl2_init st))))"

definition loop :: "Inputs \<Rightarrow> State \<Rightarrow> State option" where
  "loop inp st =
     (case manageKeys inp (manageSettings inp st) of
        None \<Rightarrow> None
      | Some st \<Rightarrow> Some (emit (Delay LOOP_DELAY) st))"

text \<open>
  The program: \<^verbatim>\<open>setup\<close> once, then \<^verbatim>\<open>loop\<close> once for each element of the list of inputs.
\<close>

fun loops :: "Inputs list \<Rightarrow> State \<Rightarrow> State option" where
  "loops [] st = Some st"
| "loops (inp # inps) st =
     (case loop inp st of None \<Rightarrow> None | Some st \<Rightarrow> loops inps st)"

definition run :: "Inputs \<Rightarrow> Inputs list \<Rightarrow> State option" where
  "run inp0 inps = loops inps (setup_board inp0 initial)"

section \<open>Program points and well-formed tables\<close>

text \<open>
  The points the program passes through: the end of \<^verbatim>\<open>setup\<close>, and from a point the end
  of a settings pass, of one turn of the loop over the keys for a key below
  \<^verbatim>\<open>AMOUNT_OF_KEYS\<close>, of a call of \<^verbatim>\<open>altBase\<close> and of the \<^verbatim>\<open>delay\<close>, whatever the pins
  return.
\<close>

inductive point :: "State \<Rightarrow> bool" where
  after_setup: "point (setup_board inp initial)"
| after_manageSettings: "point st \<Longrightarrow> point (manageSettings inp st)"
| after_key:
    "point st \<Longrightarrow> uint key < AMOUNT_OF_KEYS \<Longrightarrow> manageKeys_key inp key st = Some st' \<Longrightarrow>
     point st'"
| after_altBase: "point st \<Longrightarrow> point (altBase alt st)"
| after_delay: "point st \<Longrightarrow> point (emit (Delay LOOP_DELAY) st)"

text \<open>
  The array has its \<^verbatim>\<open>AMOUNT_OF_CHANNELS\<close> elements and each element carries its own
  index as \<^verbatim>\<open>id\<close>, as \<^verbatim>\<open>setup\<close> leaves it.
\<close>

definition table_ok :: "State \<Rightarrow> bool" where
  "table_ok st \<longleftrightarrow>
     length (channels st) = nat AMOUNT_OF_CHANNELS \<and>
     (\<forall>i < length (channels st). id_c (channels st ! i) = int i)"

definition none_playing :: "State \<Rightarrow> bool" where
  "none_playing st \<longleftrightarrow> (\<forall>c \<in> set (channels st). \<not> playing c)"

text \<open>No key other than \<^verbatim>\<open>NONE\<close> is held by two channels.\<close>

definition keys_apart :: "State \<Rightarrow> bool" where
  "keys_apart st \<longleftrightarrow>
     (\<forall>i < length (channels st). \<forall>j < length (channels st).
        pressedKey (channels st ! i) = pressedKey (channels st ! j) \<and>
        pressedKey (channels st ! i) \<noteq> NONE \<longrightarrow> i = j)"

text \<open>Every channel holds \<^verbatim>\<open>NONE\<close> or the number of one of the keys.\<close>

definition keys_known :: "State \<Rightarrow> bool" where
  "keys_known st \<longleftrightarrow>
     (\<forall>c \<in> set (channels st).
        pressedKey c = NONE \<or> (0 \<le> pressedKey c \<and> pressedKey c < AMOUNT_OF_KEYS))"

definition table_inv :: "State \<Rightarrow> bool" where
  "table_inv st \<longleftrightarrow> table_ok st \<and> none_playing st \<and> keys_apart st"


section \<open>Example tables and pins\<close>

text \<open>
  A table written as the list of its \<^verbatim>\<open>pressedKey\<close> and \<^verbatim>\<open>playing\<close> fields, the \<^verbatim>\<open>id\<close>s
  counting from \<open>i\<close>; the globals with such a table; and pins that read \<^verbatim>\<open>HIGH\<close> on the
  listed pins, with every analog input at \<open>raw\<close>.
\<close>

fun example_channels :: "int \<Rightarrow> (int \<times> bool) list \<Rightarrow> Channel list" where
  "example_channels i [] = []"
| "example_channels i ((k, p) # kps) =
     \<lparr>id_c = i, pressedKey = k, playing = p\<rparr> # example_channels (i + 1) kps"

definition example :: "(int \<times> bool) list \<Rightarrow> State" where
  "example kps = initial\<lparr>channels := example_channels 0 kps\<rparr>"

definition pins :: "int \<Rightarrow> int list \<Rightarrow> Inputs" where
  "pins raw high =
     \<lparr>analogRead = (\<lambda>i. raw),
      digitalRead = (\<lambda>p. if p \<in> set high then HIGH else LOW),
      digitalReread = (\<lambda>p. if p \<in> set high then HIGH else LOW)\<rparr>"

text \<open>
  Pins whose second reading in a pass may differ from the first: \<^verbatim>\<open>HIGH\<close> at the first
  reading on the pins of \<open>high\<close>, at the second on the pins of \<open>again\<close>.
\<close>

definition pins_twice :: "int \<Rightarrow> int list \<Rightarrow> int list \<Rightarrow> Inputs" where
  "pins_twice raw high again =
     \<lparr>analogRead = (\<lambda>i. raw),
      digitalRead = (\<lambda>p. if p \<in> set high then HIGH else LOW),
      digitalReread = (\<lambda>p. if p \<in> set again then HIGH else LOW)\<rparr>"


definition key0_held :: State where
  "key0_held =
     emit (Serial_println '' key 0 pressed!'')
       ((playNoteFromBase 0 0 (setup_board (pins 0 []) initial))
          \<lparr>channels :=
             example_channels 0
               [(0, False), (NONE, False), (NONE, False), (NONE, False),
                (NONE, False), (NONE, False), (NONE, False), (NONE, False)]\<rparr>)"

section \<open>Bytes\<close>

lemmas config =
  LOOP_DELAY_def NONE_def BASE_NOTE_def LOWEST_NOTE_def HIGHEST_NOTE_def FIRST_KEY_PIN_def
  MOVE_UP_1_PIN_def MOVE_DOWN_1_PIN_def AMOUNT_OF_KEYS_def AMOUNT_OF_EXTRA_KEYS_def
  AMOUNT_OF_CHANNELS_def AMOUNT_OF_SETTINGS_def

lemma uint_byte_of_int: "0 \<le> x \<Longrightarrow> x < 256 \<Longrightarrow> uint (word_of_int x :: byte) = x"
  by (simp add: uint_word_of_int take_bit_eq_mod)

lemma uint_byte_Suc: "uint (i :: byte) < n \<Longrightarrow> n \<le> 255 \<Longrightarrow> uint (i + 1) = uint i + 1"
  by (simp add: uint_plus_if')


lemma unat_byte_Suc:
  assumes "uint (i :: byte) < n" "n \<le> 255"
  shows "unat (i + 1) = Suc (unat i)"
proof -
  have "int (unat (i + 1)) = uint (i + 1)" by (rule uint_nat [symmetric])
  also have "\<dots> = uint i + 1" using assms by (rule uint_byte_Suc)
  also have "uint i = int (unat i)" by (rule uint_nat)
  finally show ?thesis by linarith
qed

lemma all_less_8:
  "(\<forall>j < (8::nat). P j) \<longleftrightarrow> P 0 \<and> P 1 \<and> P 2 \<and> P 3 \<and> P 4 \<and> P 5 \<and> P 6 \<and> P 7"
proof
  assume "\<forall>j<8. P j"
  then show "P 0 \<and> P 1 \<and> P 2 \<and> P 3 \<and> P 4 \<and> P 5 \<and> P 6 \<and> P 7" by simp
next
  assume a: "P 0 \<and> P 1 \<and> P 2 \<and> P 3 \<and> P 4 \<and> P 5 \<and> P 6 \<and> P 7"
  show "\<forall>j<8. P j"
  proof (intro allI impI)
    fix j :: nat
    assume "j < 8"
    then have "j = 0 \<or> j = 1 \<or> j = 2 \<or> j = 3 \<or> j = 4 \<or> j = 5 \<or> j = 6 \<or> j = 7" by arith
    with a show "P j" by auto
  qed
qed

lemma all_less_3: "(\<forall>j < (3::nat). P j) \<longleftrightarrow> P 0 \<and> P 1 \<and> P 2"
proof
  assume "\<forall>j<3. P j"
  then show "P 0 \<and> P 1 \<and> P 2" by simp
next
  assume a: "P 0 \<and> P 1 \<and> P 2"
  show "\<forall>j<3. P j"
  proof (intro allI impI)
    fix j :: nat
    assume "j < 3"
    then have "j = 0 \<or> j = 1 \<or> j = 2" by arith
    with a show "P j" by auto
  qed
qed

lemma all_less_2: "(\<forall>j < (2::nat). P j) \<longleftrightarrow> P 0 \<and> P 1"
proof
  assume "\<forall>j<2. P j"
  then show "P 0 \<and> P 1" by simp
next
  assume a: "P 0 \<and> P 1"
  show "\<forall>j<2. P j"
  proof (intro allI impI)
    fix j :: nat
    assume "j < 2"
    then have "j = 0 \<or> j = 1" by arith
    with a show "P j" by auto
  qed
qed

section \<open>The base note\<close>

lemma altBase_base:
  "uint (base (altBase alt st)) =
     (if LOWEST_NOTE \<le> uint (base st) + alt \<and> uint (base st) + alt < HIGHEST_NOTE - AMOUNT_OF_KEYS
      then uint (base st) + alt else uint (base st))"
  by (simp add: altBase_def config uint_byte_of_int del: of_int_add)

lemma altBase_range:
  "uint (base st) < HIGHEST_NOTE - AMOUNT_OF_KEYS \<Longrightarrow>
   uint (base (altBase alt st)) < HIGHEST_NOTE - AMOUNT_OF_KEYS"
  by (simp add: altBase_base)

lemma fold_altBase_range:
  "uint (base st) < HIGHEST_NOTE - AMOUNT_OF_KEYS \<Longrightarrow>
   uint (base (fold altBase alts st)) < HIGHEST_NOTE - AMOUNT_OF_KEYS"
  by (induction alts arbitrary: st) (simp_all add: altBase_range)

text \<open>
  C6: \<^verbatim>\<open>altBase(alt)\<close> stores \<^verbatim>\<open>base + alt\<close> exactly when
  \<^verbatim>\<open>LOWEST_NOTE <= base + alt < HIGHEST_NOTE - AMOUNT_OF_KEYS\<close> and changes nothing
  otherwise; so from a base in \<^verbatim>\<open>[0, 96 - AMOUNT_OF_KEYS)\<close> no sequence of calls, with
  whatever arguments, takes the base out of that range.
\<close>

theorem altBase_clamped:
  "altBase alt st =
      (if LOWEST_NOTE \<le> uint (base st) + alt \<and> uint (base st) + alt < HIGHEST_NOTE - AMOUNT_OF_KEYS
       then st\<lparr>base := word_of_int (uint (base st) + alt)\<rparr> else st) \<and>
   uint (base (altBase alt st)) =
      (if LOWEST_NOTE \<le> uint (base st) + alt \<and> uint (base st) + alt < HIGHEST_NOTE - AMOUNT_OF_KEYS
       then uint (base st) + alt else uint (base st)) \<and>
   (LOWEST_NOTE \<le> uint (base st) \<and> uint (base st) < HIGHEST_NOTE - AMOUNT_OF_KEYS \<longrightarrow>
      LOWEST_NOTE \<le> uint (base (fold altBase alts st)) \<and>
      uint (base (fold altBase alts st)) < HIGHEST_NOTE - AMOUNT_OF_KEYS)"
  using altBase_base [of alt st] fold_altBase_range [of st alts]
  by (simp add: altBase_def LOWEST_NOTE_def)

theorem altBase_clamped_witness:
  "LOWEST_NOTE \<le> uint (base initial) \<and> uint (base initial) < HIGHEST_NOTE - AMOUNT_OF_KEYS \<and>
   uint (base (altBase 1 initial)) = 37 \<and>
   LOWEST_NOTE \<le> uint (base (fold altBase [1, - 1, 1] initial)) \<and>
   uint (base (fold altBase [1, - 1, 1] initial)) < HIGHEST_NOTE - AMOUNT_OF_KEYS"
  using altBase_clamped [of 1 initial "[1, - 1, 1]"]
  by (simp add: initial_def config altBase_def)

lemma altBase_up_down:
  assumes "uint (base st) + 1 < HIGHEST_NOTE - AMOUNT_OF_KEYS"
  shows "altBase (- 1) (altBase 1 st) = st"
proof -
  have "uint (word_of_int (uint (base st) + 1) :: byte) = uint (base st) + 1"
    using assms by (simp add: config uint_byte_of_int del: of_int_add)
  then show ?thesis using assms
    by (simp add: altBase_def config del: of_int_add)
qed

lemma altBase_down_up:
  assumes "1 \<le> uint (base st)" "uint (base st) < HIGHEST_NOTE - AMOUNT_OF_KEYS"
  shows "altBase 1 (altBase (- 1) st) = st"
proof -
  have "uint (word_of_int (uint (base st) + - 1) :: byte) = uint (base st) + - 1"
    using assms by (simp add: config uint_byte_of_int del: of_int_add of_int_diff)
  then show ?thesis using assms
    by (simp add: altBase_def config del: of_int_add of_int_diff)
qed

lemma funpow_fixed: "f x = x \<Longrightarrow> (f ^^ n) x = x"
  by (induction n) simp_all

text \<open>
  C7, as the sketch has it: from a base with \<^verbatim>\<open>base + 1 < 96 - AMOUNT_OF_KEYS\<close>,
  \<^verbatim>\<open>altBase(1)\<close> then \<^verbatim>\<open>altBase(-1)\<close>, any number of times over, gives the globals back
  as they were; from a base with \<^verbatim>\<open>1 <= base < 96 - AMOUNT_OF_KEYS\<close> so does
  \<^verbatim>\<open>altBase(-1)\<close> then \<^verbatim>\<open>altBase(1)\<close>.
\<close>

theorem altBase_alternation:
  "(uint (base st) + 1 < HIGHEST_NOTE - AMOUNT_OF_KEYS \<longrightarrow>
      ((altBase (- 1) \<circ> altBase 1) ^^ n) st = st) \<and>
   (1 \<le> uint (base st) \<and> uint (base st) < HIGHEST_NOTE - AMOUNT_OF_KEYS \<longrightarrow>
      ((altBase 1 \<circ> altBase (- 1)) ^^ n) st = st)"
  by (simp add: funpow_fixed altBase_up_down altBase_down_up)

theorem altBase_alternation_witness:
  "uint (base initial) + 1 < HIGHEST_NOTE - AMOUNT_OF_KEYS \<and>
   ((altBase (- 1) \<circ> altBase 1) ^^ 2) initial = initial \<and>
   1 \<le> uint (base initial) \<and> uint (base initial) < HIGHEST_NOTE - AMOUNT_OF_KEYS \<and>
   ((altBase 1 \<circ> altBase (- 1)) ^^ 2) initial = initial"
  using altBase_alternation [of initial 2]
  by (simp add: initial_def config altBase_def)

text \<open>
  At the top of the range the claim of C7 fails as it is written: 92 is a base of the
  range, \<^verbatim>\<open>altBase(1)\<close> is refused there and \<^verbatim>\<open>altBase(-1)\<close> is not, and the base ends
  at 91.
\<close>

theorem altBase_alternation_counterexample:
  "LOWEST_NOTE \<le> uint (92 :: byte) \<and> uint (92 :: byte) < HIGHEST_NOTE - AMOUNT_OF_KEYS \<and>
   base (altBase (- 1) (altBase 1 (initial\<lparr>base := 92\<rparr>))) = 91 \<and>
   base (altBase (- 1) (altBase 1 (initial\<lparr>base := 92\<rparr>))) \<noteq> base (initial\<lparr>base := 92\<rparr>)"
  by (simp add: altBase_def config)

section \<open>Notes\<close>

text \<open>
  C5: when \<^verbatim>\<open>base + offset\<close> is below 96, \<^verbatim>\<open>playNoteFromBase\<close> plays the note
  \<^verbatim>\<open>(base + offset) mod 12\<close>, which lies in \<^verbatim>\<open>[0, 12)\<close>, in an octave with
  \<^verbatim>\<open>octave * 12 + note = base + offset\<close>.
\<close>

theorem playNoteFromBase_note:
  assumes "uint (base st) + uint offset < HIGHEST_NOTE"
  shows "\<exists>octive noteInScale.
           playNoteFromBase channel offset st = emit (PlayNote channel octive noteInScale) st \<and>
           uint noteInScale = (uint (base st) + uint offset) mod 12 \<and>
           uint octive * 12 + uint noteInScale = uint (base st) + uint offset \<and>
           0 \<le> uint noteInScale \<and> uint noteInScale < 12"
proof -
  define n where "n = uint (base st) + uint offset"
  have n: "0 \<le> n" "n < 96" using assms by (simp_all add: n_def config)
  have 1: "uint (word_of_int n :: byte) = n" using n by (simp add: uint_byte_of_int)
  have "0 \<le> n mod 12" "n mod 12 < 12" by simp_all
  then have 2: "uint (word_of_int (n mod 12) :: byte) = n mod 12"
    by (simp add: uint_byte_of_int)
  have "n mod 12 \<le> n" using n by (simp add: zmod_le_nonneg_dividend)
  then have "0 \<le> (n - n mod 12) div 12" "(n - n mod 12) div 12 < 256" using n by simp_all
  then have 3: "uint (word_of_int ((n - n mod 12) div 12) :: byte) = (n - n mod 12) div 12"
    by (simp add: uint_byte_of_int)
  have 4: "(n - n mod 12) div 12 * 12 + n mod 12 = n"
    by (simp add: minus_mod_eq_mult_div)
  let ?nis = "word_of_int (n mod 12) :: byte"
  let ?oct = "word_of_int ((n - n mod 12) div 12) :: byte"
  have A: "playNoteFromBase channel offset st = emit (PlayNote channel ?oct ?nis) st"
    unfolding playNoteFromBase_def Let_def n_def [symmetric] 1 2 ..
  have B: "uint ?nis = n mod 12" by (rule 2)
  have C: "uint ?oct * 12 + uint ?nis = n" unfolding 2 3 by (rule 4)
  have D: "0 \<le> uint ?nis" "uint ?nis < 12" unfolding 2 by simp_all
  show ?thesis unfolding n_def [symmetric] using A B C D by blast
qed

theorem playNoteFromBase_note_witness:
  "uint (base initial) + uint (2 :: byte) < HIGHEST_NOTE \<and>
   (\<exists>octive noteInScale.
      playNoteFromBase 0 2 initial = emit (PlayNote 0 octive noteInScale) initial \<and>
      uint noteInScale = 2 \<and> uint octive = 3)"
proof -
  have h: "uint (base initial) + uint (2 :: byte) < HIGHEST_NOTE"
    by (simp add: initial_def config)
  from playNoteFromBase_note [OF h, of 0] obtain octive noteInScale where
    p: "playNoteFromBase 0 2 initial = emit (PlayNote 0 octive noteInScale) initial"
    and n: "uint noteInScale = (uint (base initial) + uint (2 :: byte)) mod 12"
    and o: "uint octive * 12 + uint noteInScale = uint (base initial) + uint (2 :: byte)"
    by blast
  from n have n2: "uint noteInScale = 2" by (simp add: initial_def config)
  with o have "uint octive = 3" by (simp add: initial_def config)
  with h p n2 show ?thesis by blast
qed

section \<open>The channel for a key\<close>

text \<open>
  C9: \<^verbatim>\<open>getChannel\<close> leaves every global as it found it, and a second call for the same
  key returns the channel the first call returned.
\<close>

theorem getChannel_pure:
  "snd (getChannel key st) = st \<and>
   fst (getChannel key (snd (getChannel key st))) = fst (getChannel key st)"
  by (simp add: getChannel_def split: option.splits)

lemma getChannel_a_first:
  "0 \<le> a \<Longrightarrow> a \<le> int i \<Longrightarrow> int i < AMOUNT_OF_CHANNELS \<Longrightarrow>
   pressedKey (channels st ! i) = uint key \<and> \<not> playing (channels st ! i) \<Longrightarrow>
   \<forall>j. a \<le> int j \<and> j < i \<longrightarrow>
       \<not> (pressedKey (channels st ! j) = uint key \<and> \<not> playing (channels st ! j)) \<Longrightarrow>
   getChannel_a key a st = Some (channels st ! i)"
proof (induction key a st rule: getChannel_a.induct)
  case (1 key a st)
  show ?case
  proof (cases "a = int i")
    case True
    with "1.prems" show ?thesis by (simp add: getChannel_a.simps)
  next
    case False
    with "1.prems" have lt: "a < int i" and a8: "a < AMOUNT_OF_CHANNELS" by simp_all
    from "1.prems" lt have here: "\<not> (pressedKey (channels st ! nat a) = uint key \<and> \<not> playing (channels st ! nat a))"
      by (metis int_nat_eq nat_less_iff order_refl)
    have "getChannel_a key (a + 1) st = Some (channels st ! i)"
      using "1.IH" [OF a8 here] "1.prems" lt by simp
    with a8 here show ?thesis by (subst getChannel_a.simps) auto
  qed
qed

lemma getChannel_a_none:
  "0 \<le> a \<Longrightarrow>
   \<forall>j. a \<le> int j \<and> int j < AMOUNT_OF_CHANNELS \<longrightarrow>
       \<not> (pressedKey (channels st ! j) = uint key \<and> \<not> playing (channels st ! j)) \<Longrightarrow>
   getChannel_a key a st = None"
proof (induction key a st rule: getChannel_a.induct)
  case (1 key a st)
  show ?case
  proof (cases "a < AMOUNT_OF_CHANNELS")
    case False
    then show ?thesis by (simp add: getChannel_a.simps)
  next
    case True
    from "1.prems" True have here: "\<not> (pressedKey (channels st ! nat a) = uint key \<and> \<not> playing (channels st ! nat a))"
      by (metis int_nat_eq order_refl)
    have "getChannel_a key (a + 1) st = None"
      using "1.IH" [OF True here] "1.prems" by simp
    with True here show ?thesis by (subst getChannel_a.simps) simp
  qed
qed

lemma getChannel_b_first:
  "0 \<le> b \<Longrightarrow> b \<le> int i \<Longrightarrow> int i < AMOUNT_OF_CHANNELS \<Longrightarrow>
   pressedKey (channels st ! i) = NONE \<and> \<not> playing (channels st ! i) \<Longrightarrow>
   \<forall>j. b \<le> int j \<and> j < i \<longrightarrow>
       \<not> (pressedKey (channels st ! j) = NONE \<and> \<not> playing (channels st ! j)) \<Longrightarrow>
   getChannel_b b st = Some (channels st ! i)"
proof (induction b st rule: getChannel_b.induct)
  case (1 b st)
  show ?case
  proof (cases "b = int i")
    case True
    with "1.prems" show ?thesis by (simp add: getChannel_b.simps)
  next
    case False
    with "1.prems" have lt: "b < int i" and b8: "b < AMOUNT_OF_CHANNELS" by simp_all
    from "1.prems" lt have here: "\<not> (pressedKey (channels st ! nat b) = NONE \<and> \<not> playing (channels st ! nat b))"
      by (metis int_nat_eq nat_less_iff order_refl)
    have "getChannel_b (b + 1) st = Some (channels st ! i)"
      using "1.IH" [OF b8 here] "1.prems" lt by simp
    with b8 here show ?thesis by (subst getChannel_b.simps) auto
  qed
qed

lemma getChannel_b_none:
  "0 \<le> b \<Longrightarrow>
   \<forall>j. b \<le> int j \<and> int j < AMOUNT_OF_CHANNELS \<longrightarrow>
       \<not> (pressedKey (channels st ! j) = NONE \<and> \<not> playing (channels st ! j)) \<Longrightarrow>
   getChannel_b b st = None"
proof (induction b st rule: getChannel_b.induct)
  case (1 b st)
  show ?case
  proof (cases "b < AMOUNT_OF_CHANNELS")
    case False
    then show ?thesis by (simp add: getChannel_b.simps)
  next
    case True
    from "1.prems" True have here: "\<not> (pressedKey (channels st ! nat b) = NONE \<and> \<not> playing (channels st ! nat b))"
      by (metis int_nat_eq order_refl)
    have "getChannel_b (b + 1) st = None"
      using "1.IH" [OF True here] "1.prems" by simp
    with True here show ?thesis by (subst getChannel_b.simps) simp
  qed
qed

text \<open>
  C1: on a table of \<^verbatim>\<open>AMOUNT_OF_CHANNELS\<close> channels \<^verbatim>\<open>getChannel(key)\<close> returns the
  channel of lowest index that holds \<^verbatim>\<open>key\<close> and is not playing; when there is none, the
  channel of lowest index that holds \<^verbatim>\<open>NONE\<close> and is not playing; when there is none
  either, channel 0. It returns a channel in every case.
\<close>

theorem getChannel_first_fit:
  assumes "length (channels st) = nat AMOUNT_OF_CHANNELS"
  shows
  "(\<forall>i < length (channels st).
      pressedKey (channels st ! i) = uint key \<and> \<not> playing (channels st ! i) \<and>
      (\<forall>j < i. \<not> (pressedKey (channels st ! j) = uint key \<and> \<not> playing (channels st ! j))) \<longrightarrow>
      fst (getChannel key st) = channels st ! i) \<and>
   (\<forall>i < length (channels st).
      (\<forall>j < length (channels st).
         \<not> (pressedKey (channels st ! j) = uint key \<and> \<not> playing (channels st ! j))) \<and>
      pressedKey (channels st ! i) = NONE \<and> \<not> playing (channels st ! i) \<and>
      (\<forall>j < i. \<not> (pressedKey (channels st ! j) = NONE \<and> \<not> playing (channels st ! j))) \<longrightarrow>
      fst (getChannel key st) = channels st ! i) \<and>
   ((\<forall>j < length (channels st).
       \<not> (pressedKey (channels st ! j) = uint key \<and> \<not> playing (channels st ! j)) \<and>
       \<not> (pressedKey (channels st ! j) = NONE \<and> \<not> playing (channels st ! j))) \<longrightarrow>
      fst (getChannel key st) = channels st ! 0)"
proof (intro conjI allI impI)
  fix i
  assume i: "i < length (channels st)"
    and h: "pressedKey (channels st ! i) = uint key \<and> \<not> playing (channels st ! i) \<and>
      (\<forall>j < i. \<not> (pressedKey (channels st ! j) = uint key \<and> \<not> playing (channels st ! j)))"
  from i assms have "int i < AMOUNT_OF_CHANNELS" by simp
  then have "getChannel_a key 0 st = Some (channels st ! i)"
    using h by (intro getChannel_a_first) simp_all
  then show "fst (getChannel key st) = channels st ! i" by (simp add: getChannel_def)
next
  fix i
  assume i: "i < length (channels st)"
    and h: "(\<forall>j < length (channels st).
         \<not> (pressedKey (channels st ! j) = uint key \<and> \<not> playing (channels st ! j))) \<and>
      pressedKey (channels st ! i) = NONE \<and> \<not> playing (channels st ! i) \<and>
      (\<forall>j < i. \<not> (pressedKey (channels st ! j) = NONE \<and> \<not> playing (channels st ! j)))"
  from i assms have i8: "int i < AMOUNT_OF_CHANNELS" by simp
  have a: "getChannel_a key 0 st = None"
    using h assms by (intro getChannel_a_none) auto
  have "getChannel_b 0 st = Some (channels st ! i)"
    using h i8 by (intro getChannel_b_first) simp_all
  with a show "fst (getChannel key st) = channels st ! i" by (simp add: getChannel_def)
next
  assume h: "\<forall>j < length (channels st).
       \<not> (pressedKey (channels st ! j) = uint key \<and> \<not> playing (channels st ! j)) \<and>
       \<not> (pressedKey (channels st ! j) = NONE \<and> \<not> playing (channels st ! j))"
  have a: "getChannel_a key 0 st = None"
    using h assms by (intro getChannel_a_none) auto
  have "getChannel_b 0 st = None"
    using h assms by (intro getChannel_b_none) auto
  with a show "fst (getChannel key st) = channels st ! 0" by (simp add: getChannel_def)
qed

theorem getChannel_first_fit_witness:
  "length (channels (example [(5, False), (1, True), (- 1, False), (1, False),
                              (- 1, False), (- 1, False), (- 1, False), (- 1, False)])) =
     nat AMOUNT_OF_CHANNELS \<and>
   fst (getChannel 1 (example [(5, False), (1, True), (- 1, False), (1, False),
                               (- 1, False), (- 1, False), (- 1, False), (- 1, False)])) =
     \<lparr>id_c = 3, pressedKey = 1, playing = False\<rparr> \<and>
   fst (getChannel 2 (example [(5, False), (1, True), (- 1, False), (1, False),
                               (- 1, False), (- 1, False), (- 1, False), (- 1, False)])) =
     \<lparr>id_c = 2, pressedKey = - 1, playing = False\<rparr> \<and>
   length (channels (example [(10, False), (11, False), (12, False), (13, False),
                              (14, False), (15, False), (16, False), (17, False)])) =
     nat AMOUNT_OF_CHANNELS \<and>
   fst (getChannel 2 (example [(10, False), (11, False), (12, False), (13, False),
                               (14, False), (15, False), (16, False), (17, False)])) =
     \<lparr>id_c = 0, pressedKey = 10, playing = False\<rparr>"
proof -
  let ?A = "example [(5, False), (1, True), (- 1, False), (1, False),
                     (- 1, False), (- 1, False), (- 1, False), (- 1, False)]"
  let ?C = "example [(10, False), (11, False), (12, False), (13, False),
                     (14, False), (15, False), (16, False), (17, False)]"
  have lenA: "length (channels ?A) = nat AMOUNT_OF_CHANNELS"
    and lenC: "length (channels ?C) = nat AMOUNT_OF_CHANNELS"
    by (simp_all add: example_def config)
  have 1: "fst (getChannel 1 ?A) = channels ?A ! 3"
  proof (rule getChannel_first_fit [OF lenA, THEN conjunct1, THEN spec, THEN mp, THEN mp])
    show "3 < length (channels ?A)" by (simp add: example_def)
    show "pressedKey (channels ?A ! 3) = uint (1 :: byte) \<and> \<not> playing (channels ?A ! 3) \<and>
          (\<forall>j<3. \<not> (pressedKey (channels ?A ! j) = uint (1 :: byte) \<and> \<not> playing (channels ?A ! j)))"
      by (simp add: example_def all_less_3)
  qed
  have 2: "fst (getChannel 2 ?A) = channels ?A ! 2"
  proof (rule getChannel_first_fit [OF lenA, THEN conjunct2, THEN conjunct1, THEN spec, THEN mp, THEN mp])
    show "2 < length (channels ?A)" by (simp add: example_def)
    show "(\<forall>j < length (channels ?A).
             \<not> (pressedKey (channels ?A ! j) = uint (2 :: byte) \<and> \<not> playing (channels ?A ! j))) \<and>
          pressedKey (channels ?A ! 2) = NONE \<and> \<not> playing (channels ?A ! 2) \<and>
          (\<forall>j<2. \<not> (pressedKey (channels ?A ! j) = NONE \<and> \<not> playing (channels ?A ! j)))"
      unfolding lenA AMOUNT_OF_CHANNELS_def by (simp add: example_def config all_less_8 all_less_2)
  qed
  have 3: "fst (getChannel 2 ?C) = channels ?C ! 0"
  proof (rule getChannel_first_fit [OF lenC, THEN conjunct2, THEN conjunct2, THEN mp])
    show "\<forall>j < length (channels ?C).
             \<not> (pressedKey (channels ?C ! j) = uint (2 :: byte) \<and> \<not> playing (channels ?C ! j)) \<and>
             \<not> (pressedKey (channels ?C ! j) = NONE \<and> \<not> playing (channels ?C ! j))"
      unfolding lenC AMOUNT_OF_CHANNELS_def by (simp add: example_def config all_less_8)
  qed
  from lenA lenC 1 2 3 show ?thesis by (simp add: example_def)
qed

section \<open>The settings\<close>

lemma emit_fields [simp]:
  "base (emit c st) = base st" "channels (emit c st) = channels st"
  "tremolo (emit c st) = tremolo st" "vibrato (emit c st) = vibrato st"
  "settings (emit c st) = settings st" "trace (emit c st) = trace st @ [c]"
  by (simp_all add: emit_def)

lemma manageSettings_set_fields [simp]:
  "base (manageSettings_set i st) = base st" "channels (manageSettings_set i st) = channels st"
  "tremolo (manageSettings_set i st) = tremolo st" "vibrato (manageSettings_set i st) = vibrato st"
  "settings (manageSettings_set i st) = settings st"
  by (simp_all add: manageSettings_set_def)

lemma manageSettings_apply_fields [simp]:
  "base (manageSettings_apply i st) = base st \<and> channels (manageSettings_apply i st) = channels st \<and>
   tremolo (manageSettings_apply i st) = tremolo st \<and> vibrato (manageSettings_apply i st) = vibrato st \<and>
   settings (manageSettings_apply i st) = settings st"
proof (induction i st rule: manageSettings_apply.induct)
  case (1 i st)
  then show ?case by (subst (1 2 3 4 5) manageSettings_apply.simps) simp
qed

lemma manageSettings_sample_fields [simp]:
  "base (manageSettings_sample inp i st) = base st"
  "channels (manageSettings_sample inp i st) = channels st"
  "tremolo (manageSettings_sample inp i st) = tremolo st"
  "vibrato (manageSettings_sample inp i st) = vibrato st"
  "length (settings (manageSettings_sample inp i st)) = length (settings st)"
  by (simp_all add: manageSettings_sample_def Let_def)


lemma manageSettings_read_fields [simp]:
  "base (manageSettings_read inp i st) = base st \<and>
   channels (manageSettings_read inp i st) = channels st \<and>
   tremolo (manageSettings_read inp i st) = tremolo st \<and>
   vibrato (manageSettings_read inp i st) = vibrato st \<and>
   length (settings (manageSettings_read inp i st)) = length (settings st)"
proof (induction inp i st rule: manageSettings_read.induct)
  case (1 inp i st)
  then show ?case by (subst (1 2 3 4 5) manageSettings_read.simps) simp
qed







section \<open>The key scan\<close>

lemma getChannel_state: "getChannel key st = (fst (getChannel key st), st)"
  by (simp add: getChannel_def split: option.splits)

lemma getChannel_cases [consumes 1, case_names held free full]:
  assumes len: "length (channels st) = nat AMOUNT_OF_CHANNELS"
  obtains
    (held) i where "i < length (channels st)" "fst (getChannel key st) = channels st ! i"
      "pressedKey (channels st ! i) = uint key" "\<not> playing (channels st ! i)"
  | (free) i where "i < length (channels st)" "fst (getChannel key st) = channels st ! i"
      "pressedKey (channels st ! i) = NONE" "\<not> playing (channels st ! i)"
      "\<forall>j < length (channels st).
         \<not> (pressedKey (channels st ! j) = uint key \<and> \<not> playing (channels st ! j))"
      "\<forall>j < i. \<not> (pressedKey (channels st ! j) = NONE \<and> \<not> playing (channels st ! j))"
  | (full) "fst (getChannel key st) = channels st ! 0"
      "\<forall>j < length (channels st).
         \<not> (pressedKey (channels st ! j) = uint key \<and> \<not> playing (channels st ! j)) \<and>
         \<not> (pressedKey (channels st ! j) = NONE \<and> \<not> playing (channels st ! j))"
proof -
  let ?n = "length (channels st)"
  let ?held = "\<lambda>j. pressedKey (channels st ! j) = uint key \<and> \<not> playing (channels st ! j)"
  let ?free = "\<lambda>j. pressedKey (channels st ! j) = NONE \<and> \<not> playing (channels st ! j)"
  have bound: "int j < AMOUNT_OF_CHANNELS \<longleftrightarrow> j < ?n" for j
    using len by (simp add: AMOUNT_OF_CHANNELS_def)
  show thesis
  proof (cases "\<exists>i. i < ?n \<and> ?held i")
    case True
    then obtain i where i: "i < ?n \<and> ?held i" and least: "\<forall>j<i. \<not> (j < ?n \<and> ?held j)"
      using exists_least_iff [of "\<lambda>i. i < ?n \<and> ?held i"] by blast
    from i least have "\<forall>j. 0 \<le> int j \<and> j < i \<longrightarrow> \<not> ?held j" by auto
    with i have "getChannel_a key 0 st = Some (channels st ! i)"
      by (intro getChannel_a_first) (simp_all add: bound)
    then have "fst (getChannel key st) = channels st ! i" by (simp add: getChannel_def)
    with i show thesis by (intro held [of i]) simp_all
  next
    case False
    then have noheld: "\<forall>j < ?n. \<not> ?held j" by blast
    then have a: "getChannel_a key 0 st = None"
      by (intro getChannel_a_none) (simp_all add: bound)
    show thesis
    proof (cases "\<exists>i. i < ?n \<and> ?free i")
      case True
      then obtain i where i: "i < ?n \<and> ?free i" and least: "\<forall>j<i. \<not> (j < ?n \<and> ?free j)"
        using exists_least_iff [of "\<lambda>i. i < ?n \<and> ?free i"] by blast
      from i least have l: "\<forall>j < i. \<not> ?free j" by auto
      with i have "getChannel_b 0 st = Some (channels st ! i)"
        by (intro getChannel_b_first) (simp_all add: bound)
      with a have "fst (getChannel key st) = channels st ! i" by (simp add: getChannel_def)
      with i noheld l show thesis by (intro free [of i]) simp_all
    next
      case False
      then have nofree: "\<forall>j < ?n. \<not> ?free j" by blast
      then have "getChannel_b 0 st = None"
        by (intro getChannel_b_none) (simp_all add: bound)
      with a have "fst (getChannel key st) = channels st ! 0" by (simp add: getChannel_def)
      with noheld nofree show thesis by (intro full) simp_all
    qed
  qed
qed

lemma getChannel_in_table:
  assumes "length (channels st) = nat AMOUNT_OF_CHANNELS"
  shows "\<exists>i < length (channels st). fst (getChannel key st) = channels st ! i"
  using assms
proof (cases rule: getChannel_cases [where key = key])
  case (held i)
  then show ?thesis by blast
next
  case (free i)
  then show ?thesis by blast
next
  case full
  with assms show ?thesis by (intro exI [of _ 0]) (simp add: AMOUNT_OF_CHANNELS_def)
qed


lemma none_playing_nth: "none_playing st \<Longrightarrow> i < length (channels st) \<Longrightarrow> \<not> playing (channels st ! i)"
  by (simp add: none_playing_def)


lemma playNoteFromBase_fields [simp]:
  "base (playNoteFromBase ch off st) = base st"
  "channels (playNoteFromBase ch off st) = channels st"
  "tremolo (playNoteFromBase ch off st) = tremolo st"
  "vibrato (playNoteFromBase ch off st) = vibrato st"
  "settings (playNoteFromBase ch off st) = settings st"
  by (simp_all add: playNoteFromBase_def Let_def)

lemma getChannel_slot:
  assumes "table_ok st"
  shows "0 \<le> id_c (fst (getChannel key st)) \<and>
         id_c (fst (getChannel key st)) < AMOUNT_OF_CHANNELS \<and>
         nat (id_c (fst (getChannel key st))) < length (channels st) \<and>
         channels st ! nat (id_c (fst (getChannel key st))) = fst (getChannel key st)"
proof -
  from assms have len: "length (channels st) = nat AMOUNT_OF_CHANNELS"
    and ids: "\<forall>i < length (channels st). id_c (channels st ! i) = int i"
    by (simp_all add: table_ok_def)
  from getChannel_in_table [OF len, of key] obtain i where
    i: "i < length (channels st)" and c: "fst (getChannel key st) = channels st ! i" by blast
  from ids i c have "id_c (fst (getChannel key st)) = int i" by simp
  with i c len show ?thesis by (simp add: AMOUNT_OF_CHANNELS_def)
qed

lemma manageKeys_key_eq:
  assumes "table_ok st"
  shows "manageKeys_key inp key st =
    (if digitalRead inp (uint key + FIRST_KEY_PIN) = HIGH \<and>
        pressedKey (fst (getChannel key st)) = NONE then
       Some (emit (Serial_println ('' key '' @ String_byte key @ '' pressed!''))
         ((playNoteFromBase (word_of_int (id_c (fst (getChannel key st)))) key st)
            \<lparr>channels := (channels st)[nat (id_c (fst (getChannel key st))) :=
               (fst (getChannel key st))\<lparr>pressedKey := uint key\<rparr>]\<rparr>))
     else if digitalReread inp (uint key + FIRST_KEY_PIN) = LOW \<and>
             pressedKey (fst (getChannel key st)) = uint key then
       Some (emit (Serial_println (''key '' @ String_byte key @ '' released!''))
         (st\<lparr>channels := (channels st)[nat (id_c (fst (getChannel key st))) :=
               (fst (getChannel key st))\<lparr>pressedKey := NONE\<rparr>]\<rparr>))
     else Some st)"
proof -
  define c where "c = fst (getChannel key st)"
  have g: "getChannel key st = (c, st)"
    unfolding c_def by (rule getChannel_state)
  from getChannel_slot [OF assms, of key]
  have lo: "0 \<le> id_c c" and hi: "id_c c < AMOUNT_OF_CHANNELS"
    and at: "channels st ! nat (id_c c) = c"
    unfolding c_def by simp_all
  have "manageKeys_key inp key st =
    (if digitalRead inp (uint key + FIRST_KEY_PIN) = HIGH \<and> pressedKey c = NONE then
       Some (emit (Serial_println ('' key '' @ String_byte key @ '' pressed!''))
         ((playNoteFromBase (word_of_int (id_c c)) key st)
            \<lparr>channels := (channels st)[nat (id_c c) := c\<lparr>pressedKey := uint key\<rparr>]\<rparr>))
     else if digitalReread inp (uint key + FIRST_KEY_PIN) = LOW \<and> pressedKey c = uint key then
       Some (emit (Serial_println (''key '' @ String_byte key @ '' released!''))
         (st\<lparr>channels := (channels st)[nat (id_c c) := c\<lparr>pressedKey := NONE\<rparr>]\<rparr>))
     else Some st)"
  proof (cases "digitalRead inp (uint key + FIRST_KEY_PIN) = HIGH \<and> pressedKey c = NONE")
    case True
    then have 1: "(digitalRead inp (uint key + FIRST_KEY_PIN) = HIGH \<and> pressedKey c = NONE) = True"
      by simp
    show ?thesis
      unfolding manageKeys_key_def g set_pressedKey_def prod.case 1 if_True
      using lo hi at by simp
  next
    case False
    then have 1: "(digitalRead inp (uint key + FIRST_KEY_PIN) = HIGH \<and> pressedKey c = NONE) = False"
      by simp
    show ?thesis
    proof (cases "digitalReread inp (uint key + FIRST_KEY_PIN) = LOW \<and> pressedKey c = uint key")
      case True
      then have 2: "(digitalReread inp (uint key + FIRST_KEY_PIN) = LOW \<and>
                      pressedKey c = uint key) = True"
        by simp
      show ?thesis
        unfolding manageKeys_key_def g set_pressedKey_def prod.case 1 2 if_True if_False
        using lo hi at by simp
    next
      case False
      then have 2: "(digitalReread inp (uint key + FIRST_KEY_PIN) = LOW \<and>
                      pressedKey c = uint key) = False"
        by simp
      show ?thesis
        unfolding manageKeys_key_def g prod.case 1 2 if_False ..
    qed
  qed
  then show ?thesis unfolding c_def .
qed


lemma uint_not_NONE: "uint (key :: byte) \<noteq> NONE"
proof -
  have "0 \<le> uint key" by simp
  then show ?thesis unfolding NONE_def by arith
qed

lemma none_playing_update:
  assumes "none_playing st" "i < length (channels st)"
    and "channels st' = (channels st)[i := (channels st ! i)\<lparr>pressedKey := v\<rparr>]"
  shows "none_playing st'"
proof -
  have "set (channels st') \<subseteq> insert ((channels st ! i)\<lparr>pressedKey := v\<rparr>) (set (channels st))"
    using assms(3) by (simp add: set_update_subset_insert)
  moreover have "\<not> playing (channels st ! i)"
    using assms(1,2) by (simp add: none_playing_def)
  ultimately show ?thesis
    using assms(1) by (auto simp: none_playing_def)
qed

lemma inv_press:
  assumes "table_inv st" and i: "i < length (channels st)"
    and nokey: "\<forall>j < length (channels st). pressedKey (channels st ! j) \<noteq> uint key"
    and chs: "channels st' = (channels st)[i := (channels st ! i)\<lparr>pressedKey := uint key\<rparr>]"
  shows "table_inv st'"
proof -
  from assms(1) have ok: "table_ok st" and np: "none_playing st" and ka: "keys_apart st"
    by (simp_all add: table_inv_def)
  have "table_ok st'"
    using ok i chs by (auto simp: table_ok_def nth_list_update)
  moreover have "none_playing st'"
    using np i chs by (rule none_playing_update)
  moreover have "keys_apart st'"
    unfolding keys_apart_def
  proof (intro allI impI)
    fix a b
    assume a: "a < length (channels st')" and b: "b < length (channels st')"
      and eq: "pressedKey (channels st' ! a) = pressedKey (channels st' ! b) \<and>
               pressedKey (channels st' ! a) \<noteq> NONE"
    show "a = b"
    proof (cases "a = i \<or> b = i")
      case True
      with a b eq chs nokey show ?thesis
        by (auto simp: nth_list_update split: if_splits)
    next
      case False
      with a b eq chs ka show ?thesis
        by (auto simp: keys_apart_def nth_list_update)
    qed
  qed
  ultimately show ?thesis by (simp add: table_inv_def)
qed

lemma inv_release:
  assumes "table_inv st" and i: "i < length (channels st)"
    and chs: "channels st' = (channels st)[i := (channels st ! i)\<lparr>pressedKey := NONE\<rparr>]"
  shows "table_inv st'"
proof -
  from assms(1) have ok: "table_ok st" and np: "none_playing st" and ka: "keys_apart st"
    by (simp_all add: table_inv_def)
  have "table_ok st'"
    using ok i chs by (auto simp: table_ok_def nth_list_update)
  moreover have "none_playing st'"
    using np i chs by (rule none_playing_update)
  moreover have "keys_apart st'"
    unfolding keys_apart_def
  proof (intro allI impI)
    fix a b
    assume a: "a < length (channels st')" and b: "b < length (channels st')"
      and eq: "pressedKey (channels st' ! a) = pressedKey (channels st' ! b) \<and>
               pressedKey (channels st' ! a) \<noteq> NONE"
    from a b eq chs have "a \<noteq> i" "b \<noteq> i"
      by (auto simp: nth_list_update split: if_splits)
    with a b eq chs ka show "a = b"
      by (auto simp: keys_apart_def nth_list_update)
  qed
  ultimately show ?thesis by (simp add: table_inv_def)
qed

lemma inv_channels: "table_inv st \<Longrightarrow> channels st' = channels st \<Longrightarrow> table_inv st'"
  by (simp add: table_inv_def table_ok_def none_playing_def keys_apart_def)


lemma getChannel_quiet [consumes 2, case_names held free full]:
  assumes ok: "table_ok st" and np: "none_playing st"
  obtains
    (held) i where "i < length (channels st)" "fst (getChannel key st) = channels st ! i"
      "nat (id_c (fst (getChannel key st))) = i"
      "pressedKey (channels st ! i) = uint key"
  | (free) i where "i < length (channels st)" "fst (getChannel key st) = channels st ! i"
      "nat (id_c (fst (getChannel key st))) = i"
      "pressedKey (channels st ! i) = NONE"
      "\<forall>j < length (channels st). pressedKey (channels st ! j) \<noteq> uint key"
      "\<forall>j < i. pressedKey (channels st ! j) \<noteq> NONE"
  | (full) "fst (getChannel key st) = channels st ! 0"
      "\<forall>j < length (channels st).
         pressedKey (channels st ! j) \<noteq> uint key \<and> pressedKey (channels st ! j) \<noteq> NONE"
proof -
  from ok have len: "length (channels st) = nat AMOUNT_OF_CHANNELS"
    and ids: "\<forall>i < length (channels st). id_c (channels st ! i) = int i"
    by (simp_all add: table_ok_def)
  have np': "\<not> playing (channels st ! j)" if "j < length (channels st)" for j
    using np that by (rule none_playing_nth)
  from len show thesis
  proof (cases rule: getChannel_cases [where key = key])
    case (held i)
    with ids show thesis by (intro that(1) [of i]) simp_all
  next
    case (free i)
    from free(1,6) have "\<forall>j < i. pressedKey (channels st ! j) \<noteq> NONE"
      using np' by auto
    moreover from free(5) have "\<forall>j < length (channels st). pressedKey (channels st ! j) \<noteq> uint key"
      using np' by auto
    ultimately show thesis using free ids by (intro that(2) [of i]) simp_all
  next
    case full
    from full(2) have "\<forall>j < length (channels st).
         pressedKey (channels st ! j) \<noteq> uint key \<and> pressedKey (channels st ! j) \<noteq> NONE"
      using np' by auto
    with full(1) show thesis by (intro that(3)) simp_all
  qed
qed

lemma manageKeys_key_inv:
  assumes "table_inv st"
  shows "\<exists>st'. manageKeys_key inp key st = Some st' \<and> table_inv st'"
proof -
  from assms have ok: "table_ok st" and np: "none_playing st" by (simp_all add: table_inv_def)
  note eq = manageKeys_key_eq [OF ok, of inp key]
  from ok np show ?thesis
  proof (cases rule: getChannel_quiet [where key = key])
    case (held i)
    have notNONE: "pressedKey (fst (getChannel key st)) \<noteq> NONE"
      using held(2,4) uint_not_NONE [of key] by simp
    show ?thesis
    proof (cases "digitalReread inp (uint key + FIRST_KEY_PIN) = LOW")
      case True
      let ?st' = "emit (Serial_println (''key '' @ String_byte key @ '' released!''))
         (st\<lparr>channels := (channels st)[i := (channels st ! i)\<lparr>pressedKey := NONE\<rparr>]\<rparr>)"
      have "manageKeys_key inp key st = Some ?st'"
        using eq notNONE True held by simp
      moreover have "table_inv ?st'"
        using assms held(1) by (rule inv_release) simp
      ultimately show ?thesis by blast
    next
      case False
      with eq notNONE have "manageKeys_key inp key st = Some st" by simp
      with assms show ?thesis by blast
    qed
  next
    case (free i)
    have notkey: "pressedKey (fst (getChannel key st)) \<noteq> uint key"
      using free(2,4) uint_not_NONE [of key] by simp
    show ?thesis
    proof (cases "digitalRead inp (uint key + FIRST_KEY_PIN) = HIGH")
      case True
      let ?st' = "emit (Serial_println ('' key '' @ String_byte key @ '' pressed!''))
         ((playNoteFromBase (word_of_int (id_c (fst (getChannel key st)))) key st)
            \<lparr>channels := (channels st)[i := (channels st ! i)\<lparr>pressedKey := uint key\<rparr>]\<rparr>)"
      have "manageKeys_key inp key st = Some ?st'"
        using eq True free by simp
      moreover have "table_inv ?st'"
        using assms free(1,5) by (rule inv_press) simp
      ultimately show ?thesis by blast
    next
      case False
      with eq notkey have "manageKeys_key inp key st = Some st" by simp
      with assms show ?thesis by blast
    qed
  next
    case full
    from ok have "0 < length (channels st)" by (simp add: table_ok_def AMOUNT_OF_CHANNELS_def)
    with full have "pressedKey (fst (getChannel key st)) \<noteq> uint key"
      "pressedKey (fst (getChannel key st)) \<noteq> NONE" by simp_all
    with eq have "manageKeys_key inp key st = Some st" by simp
    with assms show ?thesis by blast
  qed
qed

lemma altBase_fields [simp]:
  "channels (altBase alt st) = channels st" "settings (altBase alt st) = settings st"
  "tremolo (altBase alt st) = tremolo st" "vibrato (altBase alt st) = vibrato st"
  "trace (altBase alt st) = trace st"
  by (simp_all add: altBase_def)

lemma manageSettings_channels [simp]: "channels (manageSettings inp st) = channels st"
  by (simp add: manageSettings_def)

lemma setup_pins_channels [simp]: "channels (setup_pins i st) = channels st"
proof (induction i st rule: setup_pins.induct)
  case (1 i st)
  then show ?case by (subst setup_pins.simps) simp
qed

lemma setup_channels_table:
  assumes "length (channels st) = 8"
  shows "channels (setup_channels 0 st) =
         example_channels 0 [(NONE, False), (NONE, False), (NONE, False), (NONE, False),
                             (NONE, False), (NONE, False), (NONE, False), (NONE, False)]"
proof -
  from assms obtain c0 c1 c2 c3 c4 c5 c6 c7 where
    "channels st = [c0, c1, c2, c3, c4, c5, c6, c7]"
    by (auto simp: length_Suc_conv eval_nat_numeral)
  then show ?thesis
    by (simp add: setup_channels.simps AMOUNT_OF_CHANNELS_def)
qed

lemma setup_board_channels:
  "channels (setup_board inp initial) =
     example_channels 0 [(NONE, False), (NONE, False), (NONE, False), (NONE, False),
                         (NONE, False), (NONE, False), (NONE, False), (NONE, False)]"
  by (simp add: setup_board_def setup_channels_table initial_def AMOUNT_OF_CHANNELS_def)

lemma inv_setup_board: "table_inv (setup_board inp initial)"
proof -
  let ?st = "setup_board inp initial"
  have len: "length (channels ?st) = 8"
    by (simp add: setup_board_channels)
  have "table_ok ?st"
    unfolding table_ok_def len
    by (simp add: all_less_8 setup_board_channels AMOUNT_OF_CHANNELS_def)
  moreover have "none_playing ?st"
    by (simp add: none_playing_def setup_board_channels)
  moreover have "\<forall>i<8. pressedKey (channels ?st ! i) = NONE"
    by (simp add: all_less_8 setup_board_channels)
  then have "keys_apart ?st"
    unfolding keys_apart_def len by blast
  ultimately show ?thesis by (simp add: table_inv_def)
qed

lemma point_inv: "point st \<Longrightarrow> table_inv st"
proof (induction rule: point.induct)
  case (after_setup inp)
  show ?case by (rule inv_setup_board)
next
  case (after_manageSettings st inp)
  then show ?case by (elim inv_channels) simp
next
  case (after_key st key inp st')
  with manageKeys_key_inv [of st inp key] show ?case by auto
next
  case (after_altBase st alt)
  then show ?case by (elim inv_channels) simp
next
  case (after_delay st)
  then show ?case by (elim inv_channels) simp
qed

section \<open>Every pass runs to its end\<close>


lemma manageKeys_loop_point:
  "point st \<Longrightarrow> \<exists>st'. manageKeys_loop inp key st = Some st' \<and> point st'"
proof (induction inp key st rule: manageKeys_loop.induct)
  case (1 inp key st)
  show ?case
  proof (cases "uint key < AMOUNT_OF_KEYS")
    case False
    with "1.prems" show ?thesis by (subst manageKeys_loop.simps) simp
  next
    case True
    from "1.prems" have "table_inv st" by (rule point_inv)
    then obtain st1 where k: "manageKeys_key inp key st = Some st1"
      using manageKeys_key_inv [of st inp key] by blast
    with "1.prems" True have "point st1" by (rule after_key)
    with "1.IH" [OF True k] obtain st' where
      "manageKeys_loop inp (key + 1) st1 = Some st'" "point st'" by blast
    with True k show ?thesis by (subst manageKeys_loop.simps) simp
  qed
qed

lemma manageKeys_point:
  assumes "point st"
  shows "\<exists>st'. manageKeys inp st = Some st' \<and> point st'"
proof -
  from manageKeys_loop_point [OF assms, of inp 0] obtain st1 where
    "manageKeys_loop inp 0 st = Some st1" "point st1"
    by blast
  then show ?thesis
    by (simp add: manageKeys_def Let_def after_altBase)
qed

lemma loop_point:
  assumes "point st"
  shows "\<exists>st'. loop inp st = Some st' \<and> point st'"
proof -
  from assms have "point (manageSettings inp st)" by (rule after_manageSettings)
  from manageKeys_point [OF this, of inp] obtain st1 where
    "manageKeys inp (manageSettings inp st) = Some st1" "point st1" by blast
  then show ?thesis by (simp add: loop_def after_delay)
qed

lemma loops_point:
  "point st \<Longrightarrow> \<exists>st'. loops inps st = Some st' \<and> point st'"
proof (induction inps arbitrary: st)
  case Nil
  then show ?case by simp
next
  case (Cons inp inps)
  from loop_point [OF Cons.prems, of inp] obtain st1 where
    "loop inp st = Some st1" "point st1" by blast
  with Cons.IH [of st1] show ?case by simp
qed

lemma run_point: "\<exists>st. run inp0 inps = Some st \<and> point st"
  unfolding run_def by (rule loops_point) (rule after_setup)

section \<open>Evaluating examples\<close>

lemma table_ok_example:
  "table_ok (example [(a0, p0), (a1, p1), (a2, p2), (a3, p3), (a4, p4), (a5, p5), (a6, p6), (a7, p7)])"
proof -
  let ?st = "example [(a0, p0), (a1, p1), (a2, p2), (a3, p3), (a4, p4), (a5, p5), (a6, p6), (a7, p7)]"
  have len: "length (channels ?st) = 8" by (simp add: example_def)
  show ?thesis
    unfolding table_ok_def len
    by (simp add: all_less_8 example_def AMOUNT_OF_CHANNELS_def)
qed

lemma String_byte_0: "String_byte 0 = ''0''"
  by (simp add: String_byte_def digit_def)

lemmas evaluate =
  manageKeys_key_def getChannel_def getChannel_a.simps getChannel_b.simps set_pressedKey_def
  playNoteFromBase_def emit_def example_def initial_def pins_def config String_byte_0

lemma setup_key0:
  "\<exists>st'. manageKeys_key (pins 0 [2]) 0 (setup_board (pins 0 []) initial) = Some st' \<and>
         pressedKey (channels st' ! 0) = 0 \<and> length (channels st') = 8"
proof -
  let ?st = "setup_board (pins 0 []) initial"
  have "table_ok ?st" using inv_setup_board by (simp add: table_inv_def)
  note eq = manageKeys_key_eq [OF this, of "pins 0 [2]" 0]
  have g: "fst (getChannel 0 ?st) = \<lparr>id_c = 0, pressedKey = NONE, playing = False\<rparr>"
    by (simp add: getChannel_def getChannel_a.simps getChannel_b.simps setup_board_channels config)
  show ?thesis
    unfolding eq g by (simp add: pins_def config setup_board_channels)
qed

section \<open>Keys and channels\<close>

text \<open>
  C2: every sequence of passes of \<^verbatim>\<open>loop\<close> after \<^verbatim>\<open>setup\<close> runs to a point of the program,
  and at every point, for every key \<open>k\<close>, two channels that both hold \<open>k\<close> in
  \<^verbatim>\<open>pressedKey\<close> are the same channel.
\<close>

theorem one_channel_per_key:
  "(\<exists>st. run inp0 inps = Some st \<and> point st) \<and>
   (point st \<longrightarrow>
      (\<forall>i < length (channels st). \<forall>j < length (channels st).
         pressedKey (channels st ! i) = uint (k :: byte) \<and>
         pressedKey (channels st ! j) = uint k \<longrightarrow> i = j))"
proof (intro conjI impI allI)
  show "\<exists>st. run inp0 inps = Some st \<and> point st" by (rule run_point)
next
  fix i j
  assume "point st" and i: "i < length (channels st)" and j: "j < length (channels st)"
    and eq: "pressedKey (channels st ! i) = uint k \<and> pressedKey (channels st ! j) = uint k"
  from \<open>point st\<close> have "keys_apart st" using point_inv by (simp add: table_inv_def)
  with i j eq uint_not_NONE [of k] show "i = j"
    by (simp add: keys_apart_def)
qed

theorem one_channel_per_key_witness:
  "(\<exists>st. run (pins 0 []) [pins 0 [2]] = Some st \<and> point st) \<and>
   (\<exists>st. manageKeys_key (pins 0 [2]) 0 (setup_board (pins 0 []) initial) = Some st \<and>
         point st \<and> 0 < length (channels st) \<and>
         pressedKey (channels st ! 0) = uint (0 :: byte))"
proof -
  from setup_key0 obtain st where
    k: "manageKeys_key (pins 0 [2]) 0 (setup_board (pins 0 []) initial) = Some st"
    and p: "pressedKey (channels st ! 0) = 0" and l: "length (channels st) = 8"
    by blast
  have "point (setup_board (pins 0 []) initial)" by (rule after_setup)
  then have pt: "point st" using _ k by (rule after_key) (simp add: AMOUNT_OF_KEYS_def)
  from one_channel_per_key [of "pins 0 []" "[pins 0 [2]]" st 0] pt l p
  have "(\<exists>st. run (pins 0 []) [pins 0 [2]] = Some st \<and> point st) \<and> (0::nat) = 0"
    by simp
  moreover from l have "0 < length (channels st)" by simp
  ultimately show ?thesis using k pt p by auto
qed



text \<open>
  C3, as the sketch has it: when the table is well formed, the pin of the key reads
  \<^verbatim>\<open>HIGH\<close> and the channel that \<^verbatim>\<open>getChannel\<close> returns holds \<^verbatim>\<open>NONE\<close>, the turn of the loop
  for that key stores the key in \<^verbatim>\<open>pressedKey\<close> of that channel, calls
  \<^verbatim>\<open>playNoteFromBase\<close> with the channel's \<^verbatim>\<open>id\<close> and the key and prints its line; the
  \<^verbatim>\<open>playing\<close> field of every channel, the base and the settings stay as they were.
\<close>

theorem manageKeys_press:
  assumes "table_ok st"
    and "digitalRead inp (uint key + FIRST_KEY_PIN) = HIGH"
    and "pressedKey (fst (getChannel key st)) = NONE"
  shows "\<exists>i st'. i < length (channels st) \<and> fst (getChannel key st) = channels st ! i \<and>
           id_c (channels st ! i) = int i \<and>
           manageKeys_key inp key st = Some st' \<and>
           channels st' = (channels st)[i := (channels st ! i)\<lparr>pressedKey := uint key\<rparr>] \<and>
           pressedKey (channels st' ! i) = uint key \<and>
           map playing (channels st') = map playing (channels st) \<and>
           trace st' = trace (playNoteFromBase (word_of_int (int i)) key st) @
                         [Serial_println ('' key '' @ String_byte key @ '' pressed!'')] \<and>
           base st' = base st \<and> settings st' = settings st"
proof -
  let ?c = "fst (getChannel key st)"
  from getChannel_slot [OF assms(1), of key]
  have i: "nat (id_c ?c) < length (channels st)" and at: "channels st ! nat (id_c ?c) = ?c"
    and id: "int (nat (id_c ?c)) = id_c ?c"
    by simp_all
  let ?i = "nat (id_c ?c)"
  let ?st' = "emit (Serial_println ('' key '' @ String_byte key @ '' pressed!''))
         ((playNoteFromBase (word_of_int (int ?i)) key st)
            \<lparr>channels := (channels st)[?i := (channels st ! ?i)\<lparr>pressedKey := uint key\<rparr>]\<rparr>)"
  have k: "manageKeys_key inp key st = Some ?st'"
    unfolding manageKeys_key_eq [OF assms(1)] id at using assms(2,3) by simp
  have pl: "map playing (channels ?st') = map playing (channels st)"
    using i by (simp add: list_eq_iff_nth_eq nth_list_update)
  have "?i < length (channels st) \<and> ?c = channels st ! ?i \<and> id_c (channels st ! ?i) = int ?i \<and>
        manageKeys_key inp key st = Some ?st' \<and>
        channels ?st' = (channels st)[?i := (channels st ! ?i)\<lparr>pressedKey := uint key\<rparr>] \<and>
        pressedKey (channels ?st' ! ?i) = uint key \<and>
        map playing (channels ?st') = map playing (channels st) \<and>
        trace ?st' = trace (playNoteFromBase (word_of_int (int ?i)) key st) @
                       [Serial_println ('' key '' @ String_byte key @ '' pressed!'')] \<and>
        base ?st' = base st \<and> settings ?st' = settings st"
    using i at id k pl by simp
  then show ?thesis by blast
qed

theorem manageKeys_press_witness:
  "table_ok (example [(NONE, False), (NONE, False), (NONE, False), (NONE, False),
                      (NONE, False), (NONE, False), (NONE, False), (NONE, False)]) \<and>
   digitalRead (pins 0 [2]) (uint (0 :: byte) + FIRST_KEY_PIN) = HIGH \<and>
   pressedKey (fst (getChannel 0
     (example [(NONE, False), (NONE, False), (NONE, False), (NONE, False),
               (NONE, False), (NONE, False), (NONE, False), (NONE, False)]))) = NONE \<and>
   (\<exists>st'. manageKeys_key (pins 0 [2]) 0
       (example [(NONE, False), (NONE, False), (NONE, False), (NONE, False),
                 (NONE, False), (NONE, False), (NONE, False), (NONE, False)]) = Some st' \<and>
      pressedKey (channels st' ! 0) = uint (0 :: byte) \<and>
      map playing (channels st') =
        [False, False, False, False, False, False, False, False] \<and>
      trace st' = [PlayNote 0 3 0, Serial_println '' key 0 pressed!''])"
proof -
  let ?S = "example [(NONE, False), (NONE, False), (NONE, False), (NONE, False),
                     (NONE, False), (NONE, False), (NONE, False), (NONE, False)]"
  have ok: "table_ok ?S" by (rule table_ok_example)
  have hi: "digitalRead (pins 0 [2]) (uint (0 :: byte) + FIRST_KEY_PIN) = HIGH"
    by (simp add: pins_def config)
  have g: "fst (getChannel 0 ?S) = \<lparr>id_c = 0, pressedKey = NONE, playing = False\<rparr>"
    by (simp add: evaluate)
  then have no: "pressedKey (fst (getChannel 0 ?S)) = NONE" by simp
  from manageKeys_press [OF ok hi no] obtain i st' where
    c: "fst (getChannel 0 ?S) = channels ?S ! i" and id: "id_c (channels ?S ! i) = int i"
    and k: "manageKeys_key (pins 0 [2]) 0 ?S = Some st'"
    and p: "pressedKey (channels st' ! i) = uint (0 :: byte)"
    and pl: "map playing (channels st') = map playing (channels ?S)"
    and tr: "trace st' = trace (playNoteFromBase (word_of_int (int i)) 0 ?S) @
               [Serial_println ('' key '' @ String_byte 0 @ '' pressed!'')]"
    by blast
  from id [folded c] g have i: "i = 0" by simp
  have p0: "pressedKey (channels st' ! 0) = uint (0 :: byte)"
    using p unfolding i .
  have m: "map playing (channels st') = [False, False, False, False, False, False, False, False]"
    using pl by (simp add: example_def)
  have t: "trace st' = [PlayNote 0 3 0, Serial_println '' key 0 pressed!'']"
    using tr unfolding i by (simp add: evaluate)
  show ?thesis
    by (intro conjI exI [of _ st']) (rule ok hi no k p0 m t)+
qed

text \<open>
  Pressing key 0 on a table with every channel free binds channel 0 and plays the note,
  and \<^verbatim>\<open>playing\<close> of channel 0 is still false: the claim of C3 that the flag is set does
  not hold.
\<close>

theorem manageKeys_press_counterexample:
  "digitalRead (pins 0 [2]) (uint (0 :: byte) + FIRST_KEY_PIN) = HIGH \<and>
   fst (getChannel 0
     (example [(NONE, False), (NONE, False), (NONE, False), (NONE, False),
               (NONE, False), (NONE, False), (NONE, False), (NONE, False)])) =
     \<lparr>id_c = 0, pressedKey = NONE, playing = False\<rparr> \<and>
   manageKeys_key (pins 0 [2]) 0
     (example [(NONE, False), (NONE, False), (NONE, False), (NONE, False),
               (NONE, False), (NONE, False), (NONE, False), (NONE, False)]) =
   Some ((example [(0, False), (NONE, False), (NONE, False), (NONE, False),
                   (NONE, False), (NONE, False), (NONE, False), (NONE, False)])
          \<lparr>trace := [PlayNote 0 3 0, Serial_println '' key 0 pressed!'']\<rparr>) \<and>
   channels (example [(0, False), (NONE, False), (NONE, False), (NONE, False),
                      (NONE, False), (NONE, False), (NONE, False), (NONE, False)]) ! 0 =
     \<lparr>id_c = 0, pressedKey = 0, playing = False\<rparr>"
  by (simp add: evaluate)

section \<open>A free channel at every point\<close>

lemma keys_known_update:
  assumes "keys_known st"
    and "channels st' = (channels st)[i := c\<lparr>pressedKey := v\<rparr>]"
    and "v = NONE \<or> (0 \<le> v \<and> v < AMOUNT_OF_KEYS)"
  shows "keys_known st'"
proof -
  have "set (channels st') \<subseteq> insert (c\<lparr>pressedKey := v\<rparr>) (set (channels st))"
    using assms(2) by (simp add: set_update_subset_insert)
  with assms(1,3) show ?thesis
    by (auto simp: keys_known_def)
qed

lemma point_keys_known: "point st \<Longrightarrow> keys_known st"
proof (induction rule: point.induct)
  case (after_setup inp)
  show ?case by (simp add: keys_known_def setup_board_channels)
next
  case (after_manageSettings st inp)
  then show ?case by (simp add: keys_known_def)
next
  case (after_key st key inp st')
  from after_key.hyps(1) have "table_ok st" using point_inv by (simp add: table_inv_def)
  note eq = manageKeys_key_eq [OF this, of inp key]
  have small: "0 \<le> uint key \<and> uint key < AMOUNT_OF_KEYS"
    using after_key.hyps(2) by simp
  let ?c = "fst (getChannel key st)"
  from after_key.hyps(3) [unfolded eq]
  consider
      "channels st' = (channels st)[nat (id_c ?c) := ?c\<lparr>pressedKey := uint key\<rparr>]"
    | "channels st' = (channels st)[nat (id_c ?c) := ?c\<lparr>pressedKey := NONE\<rparr>]"
    | "st' = st"
    by (auto split: if_splits)
  then show ?case
  proof cases
    case 1
    from small have "uint key = NONE \<or> (0 \<le> uint key \<and> uint key < AMOUNT_OF_KEYS)" by simp
    with after_key.IH 1 show ?thesis by (rule keys_known_update)
  next
    case 2
    have "NONE = NONE \<or> (0 \<le> NONE \<and> NONE < AMOUNT_OF_KEYS)" by simp
    with after_key.IH 2 show ?thesis by (rule keys_known_update)
  next
    case 3
    with after_key.IH show ?thesis by simp
  qed
next
  case (after_altBase st alt)
  then show ?case by (simp add: keys_known_def)
next
  case (after_delay st)
  then show ?case by (simp add: keys_known_def)
qed

lemma free_channel:
  assumes ok: "table_ok st" and ka: "keys_apart st" and kk: "keys_known st"
  shows "\<exists>c \<in> set (channels st). pressedKey c = NONE"
proof (rule ccontr)
  assume "\<not> (\<exists>c \<in> set (channels st). pressedKey c = NONE)"
  then have none: "\<forall>i < length (channels st). pressedKey (channels st ! i) \<noteq> NONE"
    by simp
  let ?f = "\<lambda>i. pressedKey (channels st ! i)"
  from ok have len: "length (channels st) = 8"
    by (simp add: table_ok_def AMOUNT_OF_CHANNELS_def)
  have "inj_on ?f {..<length (channels st)}"
    using ka none by (auto simp: inj_on_def keys_apart_def)
  moreover have "?f ` {..<length (channels st)} \<subseteq> {0, 1, 2}"
    using kk none by (auto simp: keys_known_def AMOUNT_OF_KEYS_def)
  ultimately have "card {..<length (channels st)} \<le> card {0 :: int, 1, 2}"
    by (intro card_inj_on_le) simp_all
  with len show False by simp
qed

lemma point_free_channel:
  "point st \<Longrightarrow> \<exists>c \<in> set (channels st). pressedKey c = NONE"
  using point_inv [of st] point_keys_known [of st]
  by (auto simp: table_inv_def intro: free_channel)

section \<open>A key that reads high\<close>

lemma given_free:
  "(N \<and> F \<longrightarrow> C) \<and> (\<not> (N \<and> F) \<longrightarrow> S) \<Longrightarrow> F \<Longrightarrow> (N \<longrightarrow> C) \<and> (\<not> N \<longrightarrow> S)"
  by blast

lemma manageKeys_key_high:
  assumes "table_ok st" and "none_playing st"
    and "digitalRead inp (uint key + FIRST_KEY_PIN) = HIGH"
    and "digitalReread inp (uint key + FIRST_KEY_PIN) = HIGH"
  shows "((\<forall>c \<in> set (channels st). pressedKey c \<noteq> uint key) \<and>
          (\<exists>c \<in> set (channels st). pressedKey c = NONE) \<longrightarrow>
            (\<exists>i < length (channels st).
               pressedKey (channels st ! i) = NONE \<and>
               (\<forall>j < i. pressedKey (channels st ! j) \<noteq> NONE) \<and>
               manageKeys_key inp key st =
                 Some (emit (Serial_println ('' key '' @ String_byte key @ '' pressed!''))
                   ((playNoteFromBase (word_of_int (int i)) key st)
                      \<lparr>channels := (channels st)[i := (channels st ! i)\<lparr>pressedKey := uint key\<rparr>]\<rparr>))) \<and>
            manageKeys_key inp key st \<noteq> Some st) \<and>
         (\<not> ((\<forall>c \<in> set (channels st). pressedKey c \<noteq> uint key) \<and>
             (\<exists>c \<in> set (channels st). pressedKey c = NONE)) \<longrightarrow>
            manageKeys_key inp key st = Some st)"
proof -
  note eq = manageKeys_key_eq [OF assms(1), of inp key]
  have high: "digitalReread inp (uint key + FIRST_KEY_PIN) \<noteq> LOW"
    using assms(4) by simp
  from assms(1,2) show ?thesis
  proof (cases rule: getChannel_quiet [where key = key])
    case (held i)
    then have "pressedKey (fst (getChannel key st)) \<noteq> NONE"
      using uint_not_NONE [of key] by simp
    with eq high have "manageKeys_key inp key st = Some st" by simp
    moreover from held(1,4) have "\<not> (\<forall>c \<in> set (channels st). pressedKey c \<noteq> uint key)"
      using nth_mem by blast
    ultimately show ?thesis by simp
  next
    case (free i)
    let ?st' = "emit (Serial_println ('' key '' @ String_byte key @ '' pressed!''))
                   ((playNoteFromBase (word_of_int (int i)) key st)
                      \<lparr>channels := (channels st)[i := (channels st ! i)\<lparr>pressedKey := uint key\<rparr>]\<rparr>)"
    from assms(1) free(1) have id: "id_c (channels st ! i) = int i"
      by (simp add: table_ok_def)
    have k: "manageKeys_key inp key st = Some ?st'"
      unfolding eq using free(2,3,4) assms(3) id by simp
    have "?st' \<noteq> st"
    proof
      assume same: "?st' = st"
      have "length (trace ?st') = length (trace st) + 2"
        by (simp add: playNoteFromBase_def Let_def)
      then show False unfolding same by simp
    qed
    with k have ne: "manageKeys_key inp key st \<noteq> Some st" by simp
    from free(1,4,6) k have
      "\<exists>i < length (channels st).
         pressedKey (channels st ! i) = NONE \<and>
         (\<forall>j < i. pressedKey (channels st ! j) \<noteq> NONE) \<and>
         manageKeys_key inp key st =
           Some (emit (Serial_println ('' key '' @ String_byte key @ '' pressed!''))
             ((playNoteFromBase (word_of_int (int i)) key st)
                \<lparr>channels := (channels st)[i := (channels st ! i)\<lparr>pressedKey := uint key\<rparr>]\<rparr>))"
      by blast
    moreover from free(5) have "\<forall>c \<in> set (channels st). pressedKey c \<noteq> uint key"
      by (auto simp: in_set_conv_nth)
    moreover from free(1,4) have "\<exists>c \<in> set (channels st). pressedKey c = NONE"
      using nth_mem by blast
    ultimately show ?thesis using ne by blast
  next
    case full
    from assms(1) have "0 < length (channels st)" by (simp add: table_ok_def AMOUNT_OF_CHANNELS_def)
    with full have "pressedKey (fst (getChannel key st)) \<noteq> NONE" by simp
    with eq high have "manageKeys_key inp key st = Some st" by simp
    moreover from full(2) have "\<not> (\<exists>c \<in> set (channels st). pressedKey c = NONE)"
      by (auto simp: in_set_conv_nth)
    ultimately show ?thesis by simp
  qed
qed

text \<open>
  C4, as the sketch has it: at every point of the program, for a key whose pin reads
  \<^verbatim>\<open>HIGH\<close> at both readings that the turn of the loop makes of it, the turn binds the key
  (to the free channel of lowest index, with the note played and the line printed)
  exactly when no channel holds the key; in every other case it changes nothing.
\<close>

theorem manageKeys_high:
  assumes "point st"
    and "digitalRead inp (uint key + FIRST_KEY_PIN) = HIGH"
    and "digitalReread inp (uint key + FIRST_KEY_PIN) = HIGH"
  shows "((\<forall>c \<in> set (channels st). pressedKey c \<noteq> uint key) \<longrightarrow>
            (\<exists>i < length (channels st).
               pressedKey (channels st ! i) = NONE \<and>
               (\<forall>j < i. pressedKey (channels st ! j) \<noteq> NONE) \<and>
               manageKeys_key inp key st =
                 Some (emit (Serial_println ('' key '' @ String_byte key @ '' pressed!''))
                   ((playNoteFromBase (word_of_int (int i)) key st)
                      \<lparr>channels := (channels st)[i := (channels st ! i)\<lparr>pressedKey := uint key\<rparr>]\<rparr>))) \<and>
            manageKeys_key inp key st \<noteq> Some st) \<and>
         (\<not> (\<forall>c \<in> set (channels st). pressedKey c \<noteq> uint key) \<longrightarrow>
            manageKeys_key inp key st = Some st)"
proof -
  from assms(1) have ok: "table_ok st" and np: "none_playing st"
    using point_inv by (simp_all add: table_inv_def)
  from assms(1) have free: "\<exists>c \<in> set (channels st). pressedKey c = NONE"
    by (rule point_free_channel)
  show ?thesis
    by (rule given_free [OF manageKeys_key_high [OF ok np assms(2,3)] free])
qed

lemma channels_key0_held:
  "channels key0_held =
     example_channels 0
       [(0, False), (NONE, False), (NONE, False), (NONE, False),
        (NONE, False), (NONE, False), (NONE, False), (NONE, False)]"
  by (simp add: key0_held_def)

lemma table_ok_key0_held: "table_ok key0_held"
proof -
  have len: "length (channels key0_held) = 8" by (simp add: channels_key0_held)
  show ?thesis
    unfolding table_ok_def len
    by (simp add: all_less_8 channels_key0_held AMOUNT_OF_CHANNELS_def)
qed

lemma key0_pressed:
  "manageKeys_key (pins 0 [2]) 0 (setup_board (pins 0 []) initial) = Some key0_held"
proof -
  let ?st = "setup_board (pins 0 []) initial"
  have "table_ok ?st" using inv_setup_board by (simp add: table_inv_def)
  note eq = manageKeys_key_eq [OF this, of "pins 0 [2]" 0]
  have g: "fst (getChannel 0 ?st) = \<lparr>id_c = 0, pressedKey = NONE, playing = False\<rparr>"
    by (simp add: getChannel_def getChannel_a.simps getChannel_b.simps setup_board_channels config)
  show ?thesis
    unfolding eq g key0_held_def
    by (simp add: pins_def config setup_board_channels String_byte_0)
qed

lemma point_key0_held: "point key0_held"
proof -
  have "point (setup_board (pins 0 []) initial)" by (rule after_setup)
  then show ?thesis using _ key0_pressed by (rule after_key) (simp add: AMOUNT_OF_KEYS_def)
qed

lemma getChannel_key0_held:
  "fst (getChannel 0 key0_held) = \<lparr>id_c = 0, pressedKey = 0, playing = False\<rparr>"
  by (simp add: getChannel_def getChannel_a.simps channels_key0_held config)

theorem manageKeys_high_witness:
  "point (setup_board (pins 0 []) initial) \<and>
   digitalRead (pins 0 [2]) (uint (0 :: byte) + FIRST_KEY_PIN) = HIGH \<and>
   digitalReread (pins 0 [2]) (uint (0 :: byte) + FIRST_KEY_PIN) = HIGH \<and>
   uint (0 :: byte) \<notin> pressedKey ` set (channels (setup_board (pins 0 []) initial)) \<and>
   manageKeys_key (pins 0 [2]) 0 (setup_board (pins 0 []) initial) \<noteq>
     Some (setup_board (pins 0 []) initial) \<and>
   point key0_held \<and>
   uint (0 :: byte) \<in> pressedKey ` set (channels key0_held) \<and>
   manageKeys_key (pins 0 [2]) 0 key0_held = Some key0_held"
proof -
  let ?P = "setup_board (pins 0 []) initial"
  have pt: "point ?P" by (rule after_setup)
  have h: "digitalRead (pins 0 [2]) (uint (0 :: byte) + FIRST_KEY_PIN) = HIGH"
    and r: "digitalReread (pins 0 [2]) (uint (0 :: byte) + FIRST_KEY_PIN) = HIGH"
    by (simp_all add: pins_def config)
  have P0: "\<forall>c \<in> set (channels ?P). pressedKey c \<noteq> uint (0 :: byte)"
    and p0: "uint (0 :: byte) \<notin> pressedKey ` set (channels ?P)"
    by (simp_all add: setup_board_channels config)
  from manageKeys_high [OF pt h r, THEN conjunct1, THEN mp, OF P0]
  have c0: "manageKeys_key (pins 0 [2]) 0 ?P \<noteq> Some ?P" by (rule conjunct2)
  have K0: "\<not> (\<forall>c \<in> set (channels key0_held). pressedKey c \<noteq> uint (0 :: byte))"
    and k0: "uint (0 :: byte) \<in> pressedKey ` set (channels key0_held)"
    by (simp_all add: channels_key0_held)
  from manageKeys_high [OF point_key0_held h r, THEN conjunct2, THEN mp, OF K0]
  have c1: "manageKeys_key (pins 0 [2]) 0 key0_held = Some key0_held" .
  show ?thesis
    by (intro conjI) (rule pt h r p0 c0 point_key0_held k0 c1)+
qed

text \<open>
  The turn of the loop reads the pin a second time when it does not bind. With channel 0
  holding key 0, a point of the program, and the pin of key 0 reading \<^verbatim>\<open>HIGH\<close> and then
  \<^verbatim>\<open>LOW\<close>, the turn releases the key: the claim of C4 that a key read \<^verbatim>\<open>HIGH\<close> and already
  held is left alone does not hold.
\<close>

theorem manageKeys_high_counterexample:
  "point key0_held \<and>
   digitalRead (pins_twice 0 [2] []) (uint (0 :: byte) + FIRST_KEY_PIN) = HIGH \<and>
   digitalReread (pins_twice 0 [2] []) (uint (0 :: byte) + FIRST_KEY_PIN) = LOW \<and>
   uint (0 :: byte) \<in> pressedKey ` set (channels key0_held) \<and>
   manageKeys_key (pins_twice 0 [2] []) 0 key0_held =
     Some (emit (Serial_println ''key 0 released!'')
       (key0_held\<lparr>channels :=
          example_channels 0
            [(NONE, False), (NONE, False), (NONE, False), (NONE, False),
             (NONE, False), (NONE, False), (NONE, False), (NONE, False)]\<rparr>)) \<and>
   manageKeys_key (pins_twice 0 [2] []) 0 key0_held \<noteq> Some key0_held"
proof -
  let ?b = "pins_twice 0 [2] []"
  let ?st' = "emit (Serial_println ''key 0 released!'')
       (key0_held\<lparr>channels :=
          example_channels 0
            [(NONE, False), (NONE, False), (NONE, False), (NONE, False),
             (NONE, False), (NONE, False), (NONE, False), (NONE, False)]\<rparr>)"
  have h: "digitalRead ?b (uint (0 :: byte) + FIRST_KEY_PIN) = HIGH"
    and r: "digitalReread ?b (uint (0 :: byte) + FIRST_KEY_PIN) = LOW"
    by (simp_all add: pins_twice_def config)
  have k0: "uint (0 :: byte) \<in> pressedKey ` set (channels key0_held)"
    by (simp add: channels_key0_held)
  have k: "manageKeys_key ?b 0 key0_held = Some ?st'"
    unfolding manageKeys_key_eq [OF table_ok_key0_held] getChannel_key0_held
    by (simp add: pins_twice_def config channels_key0_held String_byte_0)
  have "?st' \<noteq> key0_held"
  proof
    assume same: "?st' = key0_held"
    have "length (trace ?st') = length (trace key0_held) + 1" by simp
    then show False unfolding same by simp
  qed
  with k have ne: "manageKeys_key ?b 0 key0_held \<noteq> Some key0_held" by simp
  show ?thesis
    by (intro conjI) (rule point_key0_held h r k0 k ne)+
qed

end
